theory Spec2Isabelle
  imports Main "HOL-Library.Sublist" "HOL-Library.Multiset"
begin

section \<open>The MEGA file picker: data model\<close>

text \<open>
  The component \<^verbatim>\<open>MegaFilePicker\<close> of \<^verbatim>\<open>src/mega-file-picker.tsx\<close> parses a text listing
  into file records and samples records at random. A JavaScript string is a sequence of
  UTF-16 code units; the model is over \<^typ>\<open>string\<close>, whose characters are read as the
  code units U+0000 to U+00FF. A JavaScript number that counts or indexes is a \<^typ>\<open>nat\<close>.

  The field \<^verbatim>\<open>id\<close> of the interface \<^verbatim>\<open>MegaFile\<close> is called \<open>id_n\<close>, since \<open>id\<close> is the
  identity function of HOL.
\<close>

record MegaFile =
  id_n :: nat
  fileName :: string
  fullPath :: string
  folderPath :: string
  extension :: string
  type :: string
  handle :: string

record stats_t =
  folders :: nat
  files :: nat

text \<open>The six \<^verbatim>\<open>useState\<close> cells of the component.\<close>

record app_state =
  database :: "MegaFile list"
  currentBatch :: "MegaFile list"
  currentFile :: "MegaFile option"
  isLoading :: bool
  isDragOver :: bool
  stats :: stats_t

definition initial_state :: app_state where
  "initial_state =
     \<lparr> database = [], currentBatch = [], currentFile = None,
       isLoading = False, isDragOver = False,
       stats = \<lparr> folders = 0, files = 0 \<rparr> \<rparr>"


section \<open>The string primitives of JavaScript that the parser uses\<close>

text \<open>\<^verbatim>\<open>s.split(sep)\<close> for a separator of one code unit: never the empty array.\<close>

fun js_split :: "char \<Rightarrow> string \<Rightarrow> string list" where
  "js_split sep [] = [[]]"
| "js_split sep (c # cs) =
     (if c = sep then [] # js_split sep cs
      else (case js_split sep cs of
              [] \<Rightarrow> [[c]]
            | p # ps \<Rightarrow> (c # p) # ps))"

text \<open>\<^verbatim>\<open>xs.join(sep)\<close>.\<close>

fun js_join :: "string \<Rightarrow> string list \<Rightarrow> string" where
  "js_join sep [] = []"
| "js_join sep [x] = x"
| "js_join sep (x # y # ys) = x @ sep @ js_join sep (y # ys)"

text \<open>\<^verbatim>\<open>s.includes(sub)\<close>: \<open>sub\<close> occurs in \<open>s\<close> as a contiguous substring.\<close>

fun js_includes :: "string \<Rightarrow> string \<Rightarrow> bool" where
  "js_includes [] sub = (sub = [])"
| "js_includes (c # cs) sub = (prefix sub (c # cs) \<or> js_includes cs sub)"

text \<open>
  The white space of \<^verbatim>\<open>trim()\<close> and of the regular expression class \<^verbatim>\<open>\s\<close> is the same
  set, WhiteSpace and LineTerminator of ECMAScript. Below U+0100 these are TAB, LF, VT,
  FF, CR, SPACE and NO-BREAK SPACE.
\<close>

definition is_space :: "char \<Rightarrow> bool" where
  "is_space c \<longleftrightarrow>
     c = CHR 0x09 \<or> c = CHR 0x0A \<or> c = CHR 0x0B \<or> c = CHR 0x0C \<or> c = CHR 0x0D
     \<or> c = CHR 0x20 \<or> c = CHR 0xA0"

text \<open>The regular expression atom \<^verbatim>\<open>.\<close> (without the \<^verbatim>\<open>s\<close> flag) matches every code
  unit that is no line terminator; below U+0100 the line terminators are LF and CR.\<close>

definition is_line_terminator :: "char \<Rightarrow> bool" where
  "is_line_terminator c \<longleftrightarrow> c = CHR 0x0A \<or> c = CHR 0x0D"

definition js_trim :: "string \<Rightarrow> string" where
  "js_trim s = rev (dropWhile is_space (rev (dropWhile is_space s)))"

text \<open>
  \<^verbatim>\<open>s.toLowerCase()\<close> on code units below U+0100: A to Z, and the capital letters
  U+00C0 to U+00DE without the multiplication sign U+00D7, move up by 32; every
  other code unit of that range is its own lower case.
\<close>

definition lower_char :: "char \<Rightarrow> char" where
  "lower_char c =
     (let n = (of_char c :: nat)
      in if (65 \<le> n \<and> n \<le> 90) \<or> (192 \<le> n \<and> n \<le> 222 \<and> n \<noteq> 215)
         then char_of (n + 32) else c)"

definition js_toLowerCase :: "string \<Rightarrow> string" where
  "js_toLowerCase s = map lower_char s"

text \<open>\<^verbatim>\<open>xs.pop()\<close> as a value: the last element, \<^verbatim>\<open>undefined\<close> for the empty array.\<close>

definition js_pop :: "'a list \<Rightarrow> 'a option" where
  "js_pop xs = (if xs = [] then None else Some (last xs))"


section \<open>The line pattern\<close>

text \<open>
  \<^verbatim>\<open>const lineRegex = /^(.+?)\s+<H:([^>]+)>$/;\<close>

  Behind the lazy group the pattern is deterministic. \<^verbatim>\<open>\s+\<close> has to take the whole
  run of white space, because \<^verbatim>\<open><\<close> is no white space; \<^verbatim>\<open>[^>]+\<close> has to take the whole
  run of code units other than \<^verbatim>\<open>>\<close>, because the next atom is \<^verbatim>\<open>>\<close>; and \<^verbatim>\<open>$\<close> (no
  \<^verbatim>\<open>m\<close> flag) is the end of the string. \<open>match_tail\<close> is that part of the pattern, and
  returns the second group.
\<close>

definition match_tail :: "string \<Rightarrow> string option" where
  "match_tail rest =
     (let ws = takeWhile is_space rest;
          r1 = dropWhile is_space rest
      in if ws = [] then None
         else if \<not> prefix ''<H:'' r1 then None
         else
           (let r2 = drop 3 r1;
                h = takeWhile (\<lambda>c. c \<noteq> CHR ''>'') r2;
                r3 = dropWhile (\<lambda>c. c \<noteq> CHR ''>'') r2
            in if h = [] then None
               else if r3 = ''>'' then Some h
               else None))"

text \<open>
  The lazy group \<^verbatim>\<open>(.+?)\<close> starts at the beginning of the string (\<^verbatim>\<open>^\<close>), takes one code
  unit, and grows by one code unit each time the rest of the pattern fails; it cannot
  grow over a line terminator. \<open>p\<close> is what the group holds so far.
\<close>

fun lazy_path :: "string \<Rightarrow> string \<Rightarrow> (string \<times> string) option" where
  "lazy_path p [] = None"
| "lazy_path p (c # cs) =
     (if is_line_terminator c then None
      else (case match_tail cs of
              Some h \<Rightarrow> Some (p @ [c], h)
            | None \<Rightarrow> lazy_path (p @ [c]) cs))"

text \<open>\<^verbatim>\<open>s.match(lineRegex)\<close>: the two groups of the match, \<open>None\<close> for \<^verbatim>\<open>null\<close>. A match
  of this pattern always has length 3, so the test \<^verbatim>\<open>match.length === 3\<close> adds nothing.\<close>

definition lineRegex_match :: "string \<Rightarrow> (string \<times> string) option" where
  "lineRegex_match s = lazy_path [] s"


section \<open>Classification by extension\<close>

definition imageExts :: "string list" where
  "imageExts = [''jpg'', ''jpeg'', ''png'', ''gif'', ''bmp'', ''webp'']"

definition videoExts :: "string list" where
  "videoExts = [''mp4'', ''avi'', ''mov'', ''wmv'', ''flv'', ''mkv'', ''webm'']"

definition audioExts :: "string list" where
  "audioExts = [''mp3'', ''wav'', ''flac'', ''aac'', ''ogg'']"

definition docExts :: "string list" where
  "docExts = [''pdf'', ''doc'', ''docx'', ''txt'', ''rtf'']"

definition getFileType :: "string \<Rightarrow> string" where
  "getFileType ext =
     (if ext \<in> set imageExts then ''image''
      else if ext \<in> set videoExts then ''video''
      else if ext \<in> set audioExts then ''audio''
      else if ext \<in> set docExts then ''document''
      else ''file'')"


section \<open>The parser\<close>

text \<open>
  The body of the loop of \<^verbatim>\<open>parseNewStructure\<close> for one line: the record that the line
  pushes, given the number \<open>n\<close> of records pushed so far (\<^verbatim>\<open>files.length\<close>), or \<open>None\<close>
  when the line pushes nothing.
\<close>

definition line_record :: "nat \<Rightarrow> string \<Rightarrow> MegaFile option" where
  "line_record n line =
     (if js_includes line ''<H:'' then
        (let trimmedLine = js_trim line
         in case lineRegex_match trimmedLine of
              None \<Rightarrow> None
            | Some (m1, m2) \<Rightarrow>
                (let fullPath' = js_trim m1;
                     handle' = js_trim m2;
                     pathSegments = filter (\<lambda>seg. seg \<noteq> []) (js_split CHR ''/'' fullPath')
                 in if length pathSegments = 0 then None
                    else
                      (let fileName' = last pathSegments;
                           folderPath' =
                             (if length pathSegments > 1
                              then ''/'' @ js_join ''/'' (butlast pathSegments)
                              else ''/'');
                           extension' =
                             (case js_pop (js_split CHR ''.'' fileName') of
                                None \<Rightarrow> []
                              | Some e \<Rightarrow>
                                  (if js_toLowerCase e = [] then [] else js_toLowerCase e))
                       in Some \<lparr> id_n = n, fileName = fileName', fullPath = fullPath',
                                 folderPath = folderPath', extension = extension',
                                 type = getFileType extension', handle = handle' \<rparr>)))
      else None)"

text \<open>The loop \<^verbatim>\<open>for (const line of lines)\<close>, with the array \<^verbatim>\<open>files\<close> as the accumulator \<open>fs\<close>.\<close>

fun parse_loop :: "string list \<Rightarrow> MegaFile list \<Rightarrow> MegaFile list" where
  "parse_loop [] fs = fs"
| "parse_loop (line # lines) fs =
     parse_loop lines
       (case line_record (length fs) line of
          None \<Rightarrow> fs
        | Some f \<Rightarrow> fs @ [f])"

definition parseNewStructure :: "string \<Rightarrow> MegaFile list" where
  "parseNewStructure text = parse_loop (js_split CHR 0x0A text) []"


section \<open>Loading a file\<close>

text \<open>
  The argument of \<^verbatim>\<open>handleFileUpload\<close>: no file at all (\<^verbatim>\<open>!file\<close>), a file whose
  \<^verbatim>\<open>text()\<close> promise rejects, or a file with its text.
\<close>

datatype upload = Missing | Unreadable | Content string

text \<open>
  \<^verbatim>\<open>handleFileUpload\<close> from its call to its \<^verbatim>\<open>finally\<close> block. The number of folders is
  the size of the \<^verbatim>\<open>Set\<close> of the folder paths. The \<^verbatim>\<open>alert\<close> calls change no state.
\<close>

definition handleFileUpload :: "upload \<Rightarrow> app_state \<Rightarrow> app_state" where
  "handleFileUpload file s =
     (case file of
        Missing \<Rightarrow> s
      | Unreadable \<Rightarrow> s\<lparr> isLoading := False \<rparr>
      | Content text \<Rightarrow>
          (let parsedFiles = parseNewStructure text
           in s\<lparr> database := parsedFiles,
                 currentBatch := [],
                 currentFile := None,
                 stats := \<lparr> folders = length (remdups (map folderPath parsedFiles)),
                            files = length parsedFiles \<rparr>,
                 isLoading := False \<rparr>))"


section \<open>The sampler\<close>

text \<open>
  \<^verbatim>\<open>Math.floor(Math.random() * database.length)\<close> is some index below
  \<^verbatim>\<open>database.length\<close>, and every such index can come out. The model takes the outcome of
  a draw as a natural number \<open>r\<close> from outside and uses the index
  \<open>r mod length database\<close>.
\<close>

definition pickRandomFile :: "nat \<Rightarrow> app_state \<Rightarrow> app_state" where
  "pickRandomFile r s =
     (if length (database s) = 0 then s
      else
        (let randomFile = database s ! (r mod length (database s));
             s1 = s\<lparr> currentFile := Some randomFile \<rparr>
         in if find (\<lambda>f. id_n f = id_n randomFile) (currentBatch s) = None
            then s1\<lparr> currentBatch := randomFile # currentBatch s1 \<rparr>
            else s1))"

text \<open>
  The \<^verbatim>\<open>while\<close> loop of \<^verbatim>\<open>generateBatch\<close>. The draws are a sequence \<open>rnd\<close>, and \<open>k\<close>
  counts the draws made so far. The loop may run forever; then the value is \<open>None\<close>.
\<close>

partial_function (option) batch_loop ::
  "MegaFile list \<Rightarrow> nat \<Rightarrow> (nat \<Rightarrow> nat) \<Rightarrow> nat \<Rightarrow> MegaFile list \<Rightarrow> nat set
     \<Rightarrow> MegaFile list option"
where
  "batch_loop db limit rnd k batch used =
     (if length batch < limit then
        (let randomFile = db ! (rnd k mod length db)
         in if id_n randomFile \<notin> used
            then batch_loop db limit rnd (Suc k) (batch @ [randomFile])
                   (insert (id_n randomFile) used)
            else batch_loop db limit rnd (Suc k) batch used)
      else Some batch)"

declare batch_loop.simps [code]

text \<open>
  \<^verbatim>\<open>generateBatch(count)\<close>, with the parameter \<^verbatim>\<open>count\<close> called \<open>count_n\<close> (\<open>count\<close> is a
  constant of the multiset library). \<^verbatim>\<open>batch[0] || null\<close> is the first record of the
  batch, or \<^verbatim>\<open>null\<close> for the empty batch.
\<close>

definition generateBatch :: "nat \<Rightarrow> (nat \<Rightarrow> nat) \<Rightarrow> app_state \<Rightarrow> app_state option" where
  "generateBatch count_n rnd s =
     (if length (database s) = 0 then Some s
      else
        (case batch_loop (database s) (min count_n (length (database s))) rnd 0 [] {} of
           None \<Rightarrow> None
         | Some batch \<Rightarrow>
             Some (s\<lparr> currentBatch := batch,
                      currentFile := (case batch of [] \<Rightarrow> None | f # _ \<Rightarrow> Some f) \<rparr>)))"

definition clearBatch :: "app_state \<Rightarrow> app_state" where
  "clearBatch s = s\<lparr> currentBatch := [], currentFile := None \<rparr>"

definition resetApp :: "app_state \<Rightarrow> app_state" where
  "resetApp s =
     s\<lparr> database := [], currentBatch := [], currentFile := None,
        stats := \<lparr> folders = 0, files = 0 \<rparr> \<rparr>"

text \<open>A click on an entry of the batch list: \<^verbatim>\<open>onClick={() => setCurrentFile(file)}\<close>.\<close>

definition selectFile :: "MegaFile \<Rightarrow> app_state \<Rightarrow> app_state" where
  "selectFile file s = s\<lparr> currentFile := Some file \<rparr>"


section \<open>The states of the component\<close>

text \<open>
  The states that the component can be in: the initial one, and the state after each
  handler. The entries that can be clicked are those of the batch. The flags
  \<^verbatim>\<open>isLoading\<close> and \<^verbatim>\<open>isDragOver\<close> are also set on their own (by the drag handlers, and
  while a file is being read).
\<close>

inductive reachable :: "app_state \<Rightarrow> bool" where
  r_init: "reachable initial_state"
| r_upload: "reachable s \<Longrightarrow> reachable (handleFileUpload file s)"
| r_pick: "reachable s \<Longrightarrow> reachable (pickRandomFile r s)"
| r_batch: "reachable s \<Longrightarrow> generateBatch count_n rnd s = Some s' \<Longrightarrow> reachable s'"
| r_select: "reachable s \<Longrightarrow> file \<in> set (currentBatch s) \<Longrightarrow> reachable (selectFile file s)"
| r_clear: "reachable s \<Longrightarrow> reachable (clearBatch s)"
| r_reset: "reachable s \<Longrightarrow> reachable (resetApp s)"
| r_flags: "reachable s \<Longrightarrow> reachable (s\<lparr> isLoading := l, isDragOver := d \<rparr>)"


section \<open>Notions of the specification\<close>

text \<open>The text after the final occurrence of \<open>sep\<close> in \<open>s\<close>; all of \<open>s\<close> when \<open>sep\<close> does
  not occur.\<close>

definition text_after_final :: "char \<Rightarrow> string \<Rightarrow> string" where
  "text_after_final sep s = rev (takeWhile (\<lambda>c. c \<noteq> sep) (rev s))"

text \<open>The extension as the specification describes it: the lowercased text after the
  final dot of the file name, and the empty string for a name without a dot.\<close>

definition spec_extension :: "string \<Rightarrow> string" where
  "spec_extension name =
     (if CHR ''.'' \<in> set name then js_toLowerCase (text_after_final CHR ''.'' name) else [])"

text \<open>A line contains the literal marker \<^verbatim>\<open><H:\<close>.\<close>

definition has_marker :: "string \<Rightarrow> bool" where
  "has_marker line \<longleftrightarrow> sublist ''<H:'' line"

text \<open>The records \<open>rs\<close> with their ids replaced by their positions, counted from \<open>k\<close>.\<close>

definition renumber :: "nat \<Rightarrow> MegaFile list \<Rightarrow> MegaFile list" where
  "renumber k rs = map (\<lambda>(i, f). f\<lparr> id_n := i \<rparr>) (enumerate k rs)"

text \<open>The non-empty segments of a path, as \<^verbatim>\<open>split('/').filter(Boolean)\<close> gives them.\<close>

definition path_segments :: "string \<Rightarrow> string list" where
  "path_segments p = filter (\<lambda>seg. seg \<noteq> []) (js_split CHR ''/'' p)"

text \<open>The round trip of the specification: folder path, \<^verbatim>\<open>/\<close> and file name, with the
  folder path \<^verbatim>\<open>/\<close> taken as the empty string.\<close>

definition rebuilt_path :: "MegaFile \<Rightarrow> string" where
  "rebuilt_path f = (if folderPath f = ''/'' then [] else folderPath f) @ ''/'' @ fileName f"

text \<open>The listing of the scenario in the specification, and shorter ones.\<close>

definition sample_listing :: string where
  "sample_listing =
     ''mega> ls -la'' @ [CHR 0x0A] @
     ''/docs/report.pdf <H:HANDLE1>'' @ [CHR 0x0A] @
     ''/docs/report.pdf <H:HANDLE1>'' @ [CHR 0x0A] @
     ''/pics/img.PNG <H:HANDLE2>''"

definition two_listing :: string where
  "two_listing = ''/a/x.mp4 <H:h1>'' @ [CHR 0x0A] @ ''/b/y.png <H:h2>''"

definition one_listing :: string where
  "one_listing = ''/a/x.mp4 <H:h1>''"

definition relative_listing :: string where
  "relative_listing = ''docs/report.pdf <H:abc>''"

text \<open>The states after loading these listings, and after a pick.\<close>

definition two_state :: app_state where
  "two_state = handleFileUpload (Content two_listing) initial_state"

definition one_state :: app_state where
  "one_state = handleFileUpload (Content one_listing) initial_state"

definition picked_state :: app_state where
  "picked_state = pickRandomFile 0 one_state"

text \<open>The two records of \<open>two_listing\<close>; the first is the record of \<open>one_listing\<close>.\<close>

definition first_record :: MegaFile where
  "first_record =
     \<lparr> id_n = 0, fileName = ''x.mp4'', fullPath = ''/a/x.mp4'', folderPath = ''/a'',
       extension = ''mp4'', type = ''video'', handle = ''h1'' \<rparr>"

definition second_record :: MegaFile where
  "second_record =
     \<lparr> id_n = 1, fileName = ''y.png'', fullPath = ''/b/y.png'', folderPath = ''/b'',
       extension = ''png'', type = ''image'', handle = ''h2'' \<rparr>"




text \<open>
  Sequences of draws. In a fair sequence every index below \<open>n\<close> is drawn again after
  every point; \<open>cycling_draws\<close> is fair, and \<open>stuck_draws\<close> draws the index 0 forever.
\<close>

definition fair_draws :: "nat \<Rightarrow> (nat \<Rightarrow> nat) \<Rightarrow> bool" where
  "fair_draws n rnd \<longleftrightarrow> (\<forall>i<n. \<forall>k. \<exists>j\<ge>k. rnd j mod n = i)"

definition cycling_draws :: "nat \<Rightarrow> nat" where
  "cycling_draws k = k"

definition stuck_draws :: "nat \<Rightarrow> nat" where
  "stuck_draws k = 0"

text \<open>The invariant of the loop of \<^verbatim>\<open>generateBatch\<close>: the batch holds records of the
  database with distinct ids, and \<open>used\<close> is the set of their ids.\<close>

definition loop_inv :: "MegaFile list \<Rightarrow> MegaFile list \<Rightarrow> nat set \<Rightarrow> bool" where
  "loop_inv db batch used \<longleftrightarrow>
     set batch \<subseteq> set db \<and> used = id_n ` set batch \<and> distinct (map id_n batch)"

text \<open>The invariant of the component: the ids of the database are distinct, the batch
  holds records of the database with distinct ids, and the current file, if there is
  one, is in the batch.\<close>

definition state_inv :: "app_state \<Rightarrow> bool" where
  "state_inv s \<longleftrightarrow>
     distinct (map id_n (database s))
     \<and> set (currentBatch s) \<subseteq> set (database s)
     \<and> distinct (map id_n (currentBatch s))
     \<and> set_option (currentFile s) \<subseteq> set (currentBatch s)"


section \<open>Strings\<close>

lemma js_includes_sublist: "js_includes s sub \<longleftrightarrow> sublist sub s"
  by (induction s) (auto simp: sublist_Cons_right)

lemma js_includes_marker: "js_includes line ''<H:'' \<longleftrightarrow> has_marker line"
  by (simp add: js_includes_sublist has_marker_def)

lemma js_split_not_Nil: "js_split sep s \<noteq> []"
  by (induction s) (auto split: list.splits)

lemma js_split_no_sep: "sep \<notin> set s \<Longrightarrow> js_split sep s = [s]"
  by (induction s) auto

lemma js_split_append: "js_split sep (a @ sep # b) = js_split sep a @ js_split sep b"
  by (induction a) (auto split: list.splits simp: js_split_not_Nil)

lemma rev_takeWhile_rev_all: "sep \<notin> set xs \<Longrightarrow> rev (takeWhile (\<lambda>c. c \<noteq> sep) (rev xs)) = xs"
proof -
  assume "sep \<notin> set xs"
  then have "\<forall>x\<in>set (rev xs). x \<noteq> sep"
    by auto
  then have "takeWhile (\<lambda>c. c \<noteq> sep) (rev xs) = rev xs"
    by (simp only: takeWhile_eq_all_conv)
  then show ?thesis
    by (simp only: rev_rev_ident)
qed

lemma text_after_final_no_sep: "sep \<notin> set s \<Longrightarrow> text_after_final sep s = s"
  by (simp add: text_after_final_def rev_takeWhile_rev_all)

lemma text_after_final_append:
  "sep \<notin> set b \<Longrightarrow> text_after_final sep (a @ sep # b) = b"
  by (simp add: text_after_final_def takeWhile_tail rev_takeWhile_rev_all)

lemma last_js_split: "last (js_split sep s) = text_after_final sep s"
proof (cases "sep \<in> set s")
  case True
  then obtain a b where s: "s = a @ sep # b" and b: "sep \<notin> set b"
    by (auto dest: split_list_last)
  show ?thesis
    unfolding s using b
    by (simp add: js_split_append js_split_not_Nil js_split_no_sep text_after_final_append)
next
  case False
  then show ?thesis
    by (simp add: js_split_no_sep text_after_final_no_sep)
qed

lemma js_join_snoc: "xs \<noteq> [] \<Longrightarrow> js_join sep (xs @ [x]) = js_join sep xs @ sep @ x"
  by (induction sep xs rule: js_join.induct) auto

lemma js_join_nonempty: "xs \<noteq> [] \<Longrightarrow> [] \<notin> set xs \<Longrightarrow> js_join sep xs \<noteq> []"
  by (induction sep xs rule: js_join.induct) auto

section \<open>One line of the listing\<close>

lemma line_record_id: "line_record n line = Some f \<Longrightarrow> id_n f = n"
  by (auto simp: line_record_def Let_def split: if_splits option.splits prod.splits)

lemma line_record_renumber:
  "line_record n line = map_option (\<lambda>f. f\<lparr> id_n := n \<rparr>) (line_record 0 line)"
  by (auto simp: line_record_def Let_def split: if_splits option.splits prod.splits)

lemma line_record_marker: "\<not> js_includes line ''<H:'' \<Longrightarrow> line_record n line = None"
  by (simp add: line_record_def)

lemma line_record_extension:
  "line_record n line = Some f \<Longrightarrow>
     extension f = js_toLowerCase (text_after_final CHR ''.'' (fileName f))"
  by (auto simp: line_record_def Let_def js_pop_def js_split_not_Nil last_js_split
      split: if_splits option.splits prod.splits)

lemma line_record_path:
  assumes "line_record n line = Some f"
  shows "path_segments (fullPath f) \<noteq> []"
    and "fileName f = last (path_segments (fullPath f))"
    and "folderPath f =
           (if length (path_segments (fullPath f)) > 1
            then ''/'' @ js_join ''/'' (butlast (path_segments (fullPath f))) else ''/'')"
  using assms
  by (auto simp: line_record_def Let_def path_segments_def
      split: if_splits option.splits prod.splits)

lemma rebuilt_path_segments:
  assumes "line_record n line = Some f"
  shows "rebuilt_path f = ''/'' @ js_join ''/'' (path_segments (fullPath f))"
proof -
  let ?segs = "path_segments (fullPath f)"
  note p = line_record_path [OF assms]
  have ne: "[] \<notin> set ?segs" by (simp add: path_segments_def)
  show ?thesis
  proof (cases "length ?segs > 1")
    case True
    then have bl: "butlast ?segs \<noteq> []"
      by (cases ?segs rule: rev_cases) auto
    have "[] \<notin> set (butlast ?segs)"
      using ne by (auto dest: in_set_butlastD)
    with bl have "js_join ''/'' (butlast ?segs) \<noteq> []"
      by (rule js_join_nonempty)
    then have nroot: "folderPath f \<noteq> ''/''"
      using True p(3) by simp
    have "js_join ''/'' ?segs = js_join ''/'' (butlast ?segs @ [last ?segs])"
      using p(1) by simp
    also have "\<dots> = js_join ''/'' (butlast ?segs) @ ''/'' @ last ?segs"
      using bl by (rule js_join_snoc)
    finally show ?thesis
      using nroot True p(2,3) by (simp add: rebuilt_path_def)
  next
    case False
    with p(1) obtain x where "?segs = [x]"
      by (cases ?segs) auto
    then show ?thesis
      using p(2,3) by (simp add: rebuilt_path_def)
  qed
qed

section \<open>The loop of the parser\<close>

lemma parse_loop_renumber:
  "parse_loop ls fs = fs @ renumber (length fs) (List.map_filter (line_record 0) ls)"
proof (induction ls arbitrary: fs)
  case Nil
  show ?case by (simp add: renumber_def List.map_filter_simps)
next
  case (Cons l ls)
  show ?case
  proof (cases "line_record 0 l")
    case None
    then have "line_record (length fs) l = None"
      using line_record_renumber [of "length fs" l] by simp
    with None Cons show ?thesis by (simp add: List.map_filter_simps)
  next
    case (Some f)
    then have "line_record (length fs) l = Some (f\<lparr> id_n := length fs \<rparr>)"
      using line_record_renumber [of "length fs" l] by simp
    with Some Cons show ?thesis
      by (simp add: List.map_filter_simps renumber_def)
  qed
qed

lemma renumber_ids: "map id_n (renumber k rs) = [k..<k + length rs]"
  unfolding renumber_def
  by (induction rs arbitrary: k) (auto simp: upt_rec)

lemma length_renumber: "length (renumber k rs) = length rs"
  by (simp add: renumber_def)

lemma parse_ids: "map id_n (parseNewStructure text) = [0..<length (parseNewStructure text)]"
  by (simp add: parseNewStructure_def parse_loop_renumber renumber_ids length_renumber)

lemma parse_member:
  assumes "f \<in> set (parseNewStructure text)"
  shows "\<exists>n line. line_record n line = Some f"
proof -
  have "f \<in> set (parse_loop ls fs) \<Longrightarrow> f \<in> set fs \<or> (\<exists>n line. line_record n line = Some f)" for ls fs
  proof (induction ls arbitrary: fs)
    case Nil
    then show ?case by simp
  next
    case (Cons l ls)
    show ?case
    proof (cases "line_record (length fs) l")
      case None
      with Cons show ?thesis by simp
    next
      case (Some g)
      with Cons.prems have "f \<in> set (parse_loop ls (fs @ [g]))" by simp
      from Cons.IH [OF this] Some show ?thesis by auto
    qed
  qed
  from this [of "js_split CHR 0x0A text" "[]"] assms show ?thesis
    by (simp add: parseNewStructure_def)
qed

lemma map_filter_marker:
  "List.map_filter (line_record 0) (filter has_marker ls) =
   List.map_filter (line_record 0) ls"
  by (induction ls)
    (auto simp: List.map_filter_simps line_record_marker js_includes_marker split: option.splits)

lemma length_map_filter_le: "length (List.map_filter g xs) \<le> length xs"
  by (simp add: List.map_filter_def)

text \<open>What the parser does for every file name: the extension is the lowercased last
  piece of \<^verbatim>\<open>fileName.split('.')\<close>.\<close>

lemma parse_extension:
  "f \<in> set (parseNewStructure text) \<Longrightarrow>
     extension f = js_toLowerCase (text_after_final CHR ''.'' (fileName f))"
  by (auto dest: parse_member line_record_extension)

lemma sample_listing_parsed:
  "parseNewStructure sample_listing =
     [\<lparr> id_n = 0, fileName = ''report.pdf'', fullPath = ''/docs/report.pdf'',
        folderPath = ''/docs'', extension = ''pdf'', type = ''document'',
        handle = ''HANDLE1'' \<rparr>,
      \<lparr> id_n = 1, fileName = ''report.pdf'', fullPath = ''/docs/report.pdf'',
        folderPath = ''/docs'', extension = ''pdf'', type = ''document'',
        handle = ''HANDLE1'' \<rparr>,
      \<lparr> id_n = 2, fileName = ''img.PNG'', fullPath = ''/pics/img.PNG'',
        folderPath = ''/pics'', extension = ''png'', type = ''image'',
        handle = ''HANDLE2'' \<rparr>]"
  by code_simp


section \<open>The claims about the parser and the classifier\<close>

text \<open>
  C1. The specification has the extension of a record be the lowercased text after the
  final dot of the file name, and the empty string when the file name has no dot. The
  parser takes the last piece of \<^verbatim>\<open>fileName.split('.')\<close>, which for a name without a dot
  is the whole name: the line \<^verbatim>\<open>/docs/README <H:abc>\<close> gives a record with the file name
  \<^verbatim>\<open>README\<close>, which has no dot, and the extension \<^verbatim>\<open>readme\<close>, where the specification
  has the empty string.
\<close>

theorem extension_of_dotless_name:
  "map fileName (parseNewStructure ''/docs/README <H:abc>'') = [''README'']
   \<and> map extension (parseNewStructure ''/docs/README <H:abc>'') = [''readme'']
   \<and> map (spec_extension \<circ> fileName) (parseNewStructure ''/docs/README <H:abc>'') = [[]]"
  by code_simp

text \<open>
  C2, as amended. For every record of the parser, the folder path (with \<^verbatim>\<open>/\<close> taken as
  empty), \<^verbatim>\<open>/\<close> and the file name give \<^verbatim>\<open>/\<close> followed by the non-empty segments of the
  full path joined by \<^verbatim>\<open>/\<close>; there is at least one such segment. So the round trip
  gives back the full path exactly when the full path has that form: one leading \<^verbatim>\<open>/\<close>,
  no empty segment, no trailing \<^verbatim>\<open>/\<close>.
\<close>

theorem rebuilt_path_normalized:
  assumes "f \<in> set (parseNewStructure text)"
  shows "path_segments (fullPath f) \<noteq> []
    \<and> rebuilt_path f = ''/'' @ js_join ''/'' (path_segments (fullPath f))
    \<and> (rebuilt_path f = fullPath f
         \<longleftrightarrow> fullPath f = ''/'' @ js_join ''/'' (path_segments (fullPath f)))"
proof -
  from assms obtain n line where "line_record n line = Some f"
    by (auto dest: parse_member)
  then show ?thesis
    using line_record_path(1) rebuilt_path_segments by auto
qed

theorem rebuilt_path_normalized_witness:
  "hd (parseNewStructure relative_listing) \<in> set (parseNewStructure relative_listing)
   \<and> path_segments (fullPath (hd (parseNewStructure relative_listing)))
       = [''docs'', ''report.pdf'']
   \<and> rebuilt_path (hd (parseNewStructure relative_listing)) = ''/docs/report.pdf''"
proof -
  have p: "parseNewStructure relative_listing =
      [\<lparr> id_n = 0, fileName = ''report.pdf'', fullPath = ''docs/report.pdf'',
         folderPath = ''/docs'', extension = ''pdf'', type = ''document'',
         handle = ''abc'' \<rparr>]"
    by code_simp
  have m: "hd (parseNewStructure relative_listing) \<in> set (parseNewStructure relative_listing)"
    by (simp add: p)
  have s: "path_segments (fullPath (hd (parseNewStructure relative_listing)))
      = [''docs'', ''report.pdf'']"
    by (simp add: p path_segments_def)
  from rebuilt_path_normalized [OF m] m s show ?thesis
    by simp
qed

text \<open>
  C2, as stated, fails: the line \<^verbatim>\<open>docs/report.pdf <H:abc>\<close> gives one record, with two
  path segments, whose full path is \<^verbatim>\<open>docs/report.pdf\<close> as in the line, while the
  round trip gives \<^verbatim>\<open>/docs/report.pdf\<close>.
\<close>

theorem rebuilt_path_counterexample:
  "map (length \<circ> path_segments \<circ> fullPath) (parseNewStructure relative_listing) = [2]
   \<and> map fullPath (parseNewStructure relative_listing) = [''docs/report.pdf'']
   \<and> map rebuilt_path (parseNewStructure relative_listing) = [''/docs/report.pdf'']
   \<and> map rebuilt_path (parseNewStructure relative_listing)
       \<noteq> map fullPath (parseNewStructure relative_listing)"
  by code_simp

text \<open>
  C5. The parser produces at most as many records as the text has lines with the marker
  \<^verbatim>\<open><H:\<close>; one pass of the loop adds at most one record, and none for a line without
  the marker, whatever the records before it; and the output for the whole text is the
  output for its lines with the marker alone.
\<close>

theorem parse_only_marker_lines:
  "length (parseNewStructure text) \<le> length (filter has_marker (js_split CHR 0x0A text))
   \<and> length (filter has_marker (js_split CHR 0x0A text)) \<le> length (js_split CHR 0x0A text)
   \<and> (\<not> has_marker line \<longrightarrow> line_record n line = None \<and> parse_loop [line] fs = fs)
   \<and> length (parse_loop [line] fs) \<le> Suc (length fs)
   \<and> parseNewStructure text = parse_loop (filter has_marker (js_split CHR 0x0A text)) []"
proof -
  let ?ls = "js_split CHR 0x0A text"
  have "length (parseNewStructure text)
      = length (List.map_filter (line_record 0) (filter has_marker ?ls))"
    by (simp add: parseNewStructure_def parse_loop_renumber length_renumber map_filter_marker)
  also have "\<dots> \<le> length (filter has_marker ?ls)"
    by (rule length_map_filter_le)
  finally have a: "length (parseNewStructure text) \<le> length (filter has_marker ?ls)" .
  have b: "\<not> has_marker line \<longrightarrow> line_record n line = None \<and> parse_loop [line] fs = fs"
    by (simp add: line_record_marker js_includes_marker)
  have d: "length (parse_loop [line] fs) \<le> Suc (length fs)"
    by (simp split: option.splits)
  have c: "parseNewStructure text = parse_loop (filter has_marker ?ls) []"
    by (simp add: parseNewStructure_def parse_loop_renumber map_filter_marker)
  from a b c d show ?thesis by simp
qed

theorem parse_only_marker_lines_witness:
  "length (js_split CHR 0x0A sample_listing) = 4
   \<and> length (parseNewStructure sample_listing) = 3
   \<and> \<not> has_marker ''mega> ls -la''
   \<and> line_record 3 ''mega> ls -la'' = None"
proof -
  have m: "\<not> has_marker ''mega> ls -la''"
    unfolding js_includes_marker [symmetric] by code_simp
  have l: "length (js_split CHR 0x0A sample_listing) = 4"
    by code_simp
  have p: "length (parseNewStructure sample_listing) = 3"
    by (simp add: sample_listing_parsed)
  have "line_record 3 ''mega> ls -la'' = None"
    using parse_only_marker_lines [of sample_listing "''mega> ls -la''" 3] m by blast
  with m l p show ?thesis
    by simp
qed

text \<open>
  C8. The ids of the records of the parser are \<open>0, 1, \<dots>, N - 1\<close> in the order of the
  output, and the output is the records of the lines, in the order of the lines, each
  line giving one record or none, numbered by their position in the output: a line
  that gives no record takes no id.
\<close>

theorem parse_ids_dense:
  "map id_n (parseNewStructure text) = [0..<length (parseNewStructure text)]
   \<and> parseNewStructure text =
       renumber 0 (List.map_filter (line_record 0) (js_split CHR 0x0A text))"
  by (simp add: parse_ids) (simp add: parseNewStructure_def parse_loop_renumber)

theorem parse_ids_dense_witness:
  "map id_n (parseNewStructure sample_listing) = [0, 1, 2]
   \<and> length (js_split CHR 0x0A sample_listing) = 4"
proof -
  have "length (parseNewStructure sample_listing) = 3"
    by (simp add: sample_listing_parsed)
  with parse_ids_dense [of sample_listing, THEN conjunct1]
  have "map id_n (parseNewStructure sample_listing) = [0..<3]"
    by simp
  moreover have "length (js_split CHR 0x0A sample_listing) = 4"
    by code_simp
  ultimately show ?thesis
    by (simp add: upt_rec)
qed

text \<open>
  C9. \<open>getFileType\<close> is a function of the extension alone, with one of five values; an
  extension in none of the four lists, and the empty extension among them, has the
  value \<^verbatim>\<open>file\<close>.
\<close>

theorem getFileType_fallback:
  "(ext \<notin> set imageExts \<union> set videoExts \<union> set audioExts \<union> set docExts
      \<longrightarrow> getFileType ext = ''file'')
   \<and> getFileType [] = ''file''
   \<and> getFileType ext \<in> {''image'', ''video'', ''audio'', ''document'', ''file''}
   \<and> (ext = ext' \<longrightarrow> getFileType ext = getFileType ext')"
  by (simp add: getFileType_def imageExts_def videoExts_def audioExts_def docExts_def)

theorem getFileType_fallback_witness:
  "''xyz'' \<notin> set imageExts \<union> set videoExts \<union> set audioExts \<union> set docExts
   \<and> getFileType ''xyz'' = ''file''
   \<and> getFileType ''PNG'' = ''file''
   \<and> getFileType ''png'' = ''image''"
proof -
  have n: "''xyz'' \<notin> set imageExts \<union> set videoExts \<union> set audioExts \<union> set docExts"
    by (simp add: imageExts_def videoExts_def audioExts_def docExts_def)
  have o: "getFileType ''PNG'' = ''file''" "getFileType ''png'' = ''image''"
    by (simp_all add: getFileType_def imageExts_def videoExts_def audioExts_def docExts_def)
  from getFileType_fallback [of "''xyz''" "''xyz''"] n o show ?thesis
    by simp
qed


section \<open>The loop of the batch draw\<close>

lemma loop_inv_empty: "loop_inv db [] {}"
  by (simp add: loop_inv_def)

lemma draw_in_db: "db \<noteq> [] \<Longrightarrow> db ! (r mod length db) \<in> set db"
  by simp

lemma loop_inv_accept:
  assumes "loop_inv db batch used" "f \<in> set db" "id_n f \<notin> used"
  shows "loop_inv db (batch @ [f]) (insert (id_n f) used)"
  using assms by (auto simp: loop_inv_def)

lemma batch_loop_partial:
  assumes "batch_loop db limit rnd k batch used = Some res"
    and "db \<noteq> []" "loop_inv db batch used" "length batch \<le> limit"
  shows "loop_inv db res (id_n ` set res) \<and> length res = limit"
  using assms(2-)
proof (induction rule: batch_loop.raw_induct [OF _ assms(1)])
  case (1 loop db limit rnd k batch used res)
  show ?case
  proof (cases "length batch < limit")
    case False
    with 1 show ?thesis by (auto simp: loop_inv_def)
  next
    case True
    let ?f = "db ! (rnd k mod length db)"
    have fdb: "?f \<in> set db" using \<open>db \<noteq> []\<close> by (rule draw_in_db)
    show ?thesis
    proof (cases "id_n ?f \<in> used")
      case True
      with \<open>length batch < limit\<close> "1.hyps"
      have "loop db limit rnd (Suc k) batch used = Some res"
        by (simp add: Let_def)
      from "1.IH" [OF this "1.prems"] show ?thesis .
    next
      case False
      with \<open>length batch < limit\<close> "1.hyps"
      have "loop db limit rnd (Suc k) (batch @ [?f]) (insert (id_n ?f) used) = Some res"
        by (simp add: Let_def)
      moreover have "loop_inv db (batch @ [?f]) (insert (id_n ?f) used)"
        using "1.prems"(2) fdb False by (rule loop_inv_accept)
      moreover have "length (batch @ [?f]) \<le> limit"
        using \<open>length batch < limit\<close> by simp
      ultimately show ?thesis
        using "1.IH" "1.prems"(1) by blast
    qed
  qed
qed

lemma batch_loop_skip:
  assumes "k \<le> j" "length batch < limit"
    and "\<forall>i. k \<le> i \<and> i < j \<longrightarrow> id_n (db ! (rnd i mod length db)) \<in> used"
  shows "batch_loop db limit rnd k batch used = batch_loop db limit rnd j batch used"
  using assms(1,3)
proof (induction j rule: dec_induct)
  case base
  show ?case by simp
next
  case (step n)
  then have "batch_loop db limit rnd k batch used = batch_loop db limit rnd n batch used"
    by simp
  also have "\<dots> = batch_loop db limit rnd (Suc n) batch used"
    using step.hyps step.prems assms(2)
    by (subst batch_loop.simps) (simp add: Let_def)
  finally show ?case .
qed

lemma unused_record:
  assumes "distinct (map id_n db)" "loop_inv db batch used" "length batch < length db"
  shows "\<exists>i<length db. id_n (db ! i) \<notin> used"
proof (rule ccontr)
  assume "\<not> ?thesis"
  then have "id_n ` set db \<subseteq> used"
    by (auto simp: in_set_conv_nth)
  then have "card (id_n ` set db) \<le> card used"
    using assms(2) by (intro card_mono) (auto simp: loop_inv_def)
  moreover have "card (id_n ` set db) = length db"
    using assms(1) by (metis distinct_card length_map set_map)
  moreover have "card used = length batch"
    using assms(2) by (metis distinct_card length_map set_map loop_inv_def)
  ultimately show False
    using assms(3) by simp
qed

lemma batch_loop_terminates:
  assumes "distinct (map id_n db)" "fair_draws (length db) rnd" "limit \<le> length db"
  shows "loop_inv db batch used \<Longrightarrow> \<exists>res. batch_loop db limit rnd k batch used = Some res"
proof (induction "limit - length batch" arbitrary: k batch used)
  case 0
  then have "\<not> length batch < limit"
    by simp
  then have "batch_loop db limit rnd k batch used = Some batch"
    by (subst batch_loop.simps) simp
  then show ?case
    by blast
next
  case (Suc m)
  then have lt: "length batch < limit" by simp
  let ?acc = "\<lambda>j. k \<le> j \<and> id_n (db ! (rnd j mod length db)) \<notin> used"
  from unused_record [OF assms(1) Suc.prems] lt assms(3)
  obtain i where i: "i < length db" "id_n (db ! i) \<notin> used"
    by auto
  from assms(2) i(1) have "\<exists>j\<ge>k. rnd j mod length db = i"
    unfolding fair_draws_def by blast
  then obtain j where j: "k \<le> j" "rnd j mod length db = i"
    by blast
  define j0 where "j0 = (LEAST j. ?acc j)"
  have ex: "?acc j"
    using i(2) j by simp
  have "?acc j0"
    unfolding j0_def using ex by (rule LeastI)
  then have j0: "k \<le> j0" "id_n (db ! (rnd j0 mod length db)) \<notin> used"
    by simp_all
  have before: "\<forall>i. k \<le> i \<and> i < j0 \<longrightarrow> id_n (db ! (rnd i mod length db)) \<in> used"
  proof (intro allI impI, rule ccontr)
    fix i
    assume a: "k \<le> i \<and> i < j0" and n: "id_n (db ! (rnd i mod length db)) \<notin> used"
    then have "?acc i"
      by simp
    then have "j0 \<le> i"
      unfolding j0_def by (rule Least_le)
    with a show False
      by simp
  qed
  let ?f = "db ! (rnd j0 mod length db)"
  have dbne: "db \<noteq> []"
    using i(1) by auto
  have "batch_loop db limit rnd k batch used = batch_loop db limit rnd j0 batch used"
    using j0(1) lt before by (rule batch_loop_skip)
  also have "\<dots> = batch_loop db limit rnd (Suc j0) (batch @ [?f]) (insert (id_n ?f) used)"
    using lt j0(2) by (subst batch_loop.simps) (simp add: Let_def)
  finally have eq: "batch_loop db limit rnd k batch used
      = batch_loop db limit rnd (Suc j0) (batch @ [?f]) (insert (id_n ?f) used)" .
  have inv': "loop_inv db (batch @ [?f]) (insert (id_n ?f) used)"
    using Suc.prems draw_in_db [OF dbne] j0(2) by (rule loop_inv_accept)
  have "m = limit - length (batch @ [?f])"
    using Suc.hyps(2) by simp
  from Suc.hyps(1) [OF this inv']
  obtain res where "batch_loop db limit rnd (Suc j0) (batch @ [?f]) (insert (id_n ?f) used)
      = Some res"
    by blast
  with eq have "batch_loop db limit rnd k batch used = Some res"
    by (simp only:)
  then show ?case
    by blast
qed

lemma batch_loop_stuck:
  assumes "batch_loop db limit rnd k batch used = Some res"
  shows "\<not> (length batch < limit \<and> (\<forall>j. id_n (db ! (rnd j mod length db)) \<in> used))"
proof (induction rule: batch_loop.raw_induct [OF _ assms])
  case (1 loop db limit rnd k batch used res)
  show ?case
  proof
    assume a: "length batch < limit \<and> (\<forall>j. id_n (db ! (rnd j mod length db)) \<in> used)"
    with "1.hyps" have "loop db limit rnd (Suc k) batch used = Some res"
      by (simp add: Let_def)
    from "1.IH" [OF this] a show False
      by simp
  qed
qed

section \<open>The invariant of the component\<close>

lemma state_inv_initial: "state_inv initial_state"
  by (simp add: state_inv_def initial_state_def)

lemma state_inv_upload: "state_inv s \<Longrightarrow> state_inv (handleFileUpload up s)"
proof (cases up)
  case (Content t)
  have "distinct (map id_n (parseNewStructure t))"
    by (simp add: parse_ids)
  with Content show ?thesis
    by (simp add: state_inv_def handleFileUpload_def Let_def)
qed (simp_all add: state_inv_def handleFileUpload_def)

lemma find_id_None:
  "find (\<lambda>b. id_n b = i) batch = None \<longleftrightarrow> i \<notin> id_n ` set batch"
  by (auto simp: find_None_iff)

lemma same_id_same_record:
  assumes "distinct (map id_n db)" "b \<in> set db" "f \<in> set db" "id_n b = id_n f"
  shows "b = f"
  using assms by (auto simp: distinct_map dest: inj_onD)

lemma state_inv_pick: "state_inv s \<Longrightarrow> state_inv (pickRandomFile r s)"
proof (cases "database s = []")
  case True
  assume "state_inv s"
  with True show ?thesis by (simp add: pickRandomFile_def)
next
  case False
  assume inv: "state_inv s"
  let ?f = "database s ! (r mod length (database s))"
  have fdb: "?f \<in> set (database s)"
    using False by (rule draw_in_db)
  show ?thesis
  proof (cases "id_n ?f \<in> id_n ` set (currentBatch s)")
    case True
    then obtain b where b: "b \<in> set (currentBatch s)" "id_n b = id_n ?f"
      by auto
    with inv have "b \<in> set (database s)"
      by (auto simp: state_inv_def)
    with inv b(2) fdb have "b = ?f"
      by (auto simp: state_inv_def intro: same_id_same_record)
    with b(1) have "?f \<in> set (currentBatch s)"
      by simp
    with inv True False show ?thesis
      by (simp add: pickRandomFile_def Let_def find_id_None state_inv_def)
  next
    case nin: False
    with inv False fdb show ?thesis
      by (simp add: pickRandomFile_def Let_def find_id_None state_inv_def)
  qed
qed

lemma generateBatch_result:
  assumes "generateBatch count_n rnd s = Some s'" "database s \<noteq> []"
  shows "\<exists>batch. s' = s\<lparr> currentBatch := batch,
                          currentFile := (case batch of [] \<Rightarrow> None | f # _ \<Rightarrow> Some f) \<rparr>
    \<and> loop_inv (database s) batch (id_n ` set batch)
    \<and> length batch = min count_n (length (database s))"
proof -
  from assms obtain batch where
    b: "batch_loop (database s) (min count_n (length (database s))) rnd 0 [] {} = Some batch"
    and s': "s' = s\<lparr> currentBatch := batch,
                     currentFile := (case batch of [] \<Rightarrow> None | f # _ \<Rightarrow> Some f) \<rparr>"
    by (auto simp: generateBatch_def split: option.splits)
  have "loop_inv (database s) batch (id_n ` set batch)
      \<and> length batch = min count_n (length (database s))"
    using batch_loop_partial [OF b assms(2) loop_inv_empty] by simp
  with s' show ?thesis
    by blast
qed

lemma state_inv_batch:
  assumes "state_inv s" "generateBatch count_n rnd s = Some s'"
  shows "state_inv s'"
proof (cases "database s = []")
  case True
  with assms show ?thesis by (simp add: generateBatch_def)
next
  case False
  from generateBatch_result [OF assms(2) False] obtain batch where
    "s' = s\<lparr> currentBatch := batch,
             currentFile := (case batch of [] \<Rightarrow> None | f # _ \<Rightarrow> Some f) \<rparr>"
    "loop_inv (database s) batch (id_n ` set batch)"
    by blast
  with assms(1) show ?thesis
    by (cases batch) (simp_all add: state_inv_def loop_inv_def)
qed

lemma reachable_inv: "reachable s \<Longrightarrow> state_inv s"
proof (induction rule: reachable.induct)
  case r_init
  show ?case by (rule state_inv_initial)
next
  case (r_upload s up)
  then show ?case by (simp add: state_inv_upload)
next
  case (r_pick s r)
  then show ?case by (simp add: state_inv_pick)
next
  case (r_batch s count_n rnd s')
  then show ?case by (auto intro: state_inv_batch)
next
  case (r_select s f)
  then show ?case by (simp add: state_inv_def selectFile_def)
next
  case (r_clear s)
  then show ?case by (simp add: state_inv_def clearBatch_def)
next
  case (r_reset s)
  then show ?case by (simp add: state_inv_def resetApp_def)
next
  case (r_flags s l d)
  then show ?case by (simp add: state_inv_def)
qed

lemma generateBatch_terminates:
  assumes "state_inv s" "fair_draws (length (database s)) rnd"
  shows "\<exists>s'. generateBatch count_n rnd s = Some s'"
proof -
  have "distinct (map id_n (database s))"
    using assms(1) by (simp add: state_inv_def)
  from batch_loop_terminates [OF this assms(2) _ loop_inv_empty,
      of "min count_n (length (database s))" 0]
  show ?thesis
    by (auto simp: generateBatch_def)
qed

lemma ids_permutation:
  assumes "distinct (map id_n db)" "loop_inv db batch used" "length batch = length db"
  shows "mset (map id_n batch) = mset (map id_n db)"
proof -
  have d: "distinct (map id_n batch)" and sub: "set (map id_n batch) \<subseteq> set (map id_n db)"
    using assms(2) by (auto simp: loop_inv_def)
  have "card (set (map id_n batch)) = length (map id_n batch)"
    using d by (rule distinct_card)
  moreover have "card (set (map id_n db)) = length (map id_n db)"
    using assms(1) by (rule distinct_card)
  ultimately have "card (set (map id_n batch)) = card (set (map id_n db))"
    using assms(3) by simp
  with sub have "set (map id_n batch) = set (map id_n db)"
    by (intro card_subset_eq) auto
  with set_eq_iff_mset_eq_distinct [OF d assms(1)] show ?thesis
    by blast
qed

lemma fair_cycling: "0 < n \<Longrightarrow> fair_draws n cycling_draws"
proof -
  assume n: "0 < n"
  have "\<exists>j\<ge>k. j mod n = i" if "i < n" for i k
  proof -
    have "k \<le> k * n + i"
      using n by (metis One_nat_def Suc_leI le_add1 le_trans mult.right_neutral mult_le_mono2)
    moreover have "(k * n + i) mod n = i"
      using that by simp
    ultimately show ?thesis by blast
  qed
  then show ?thesis
    by (simp add: fair_draws_def cycling_draws_def)
qed

lemma one_listing_parsed: "parseNewStructure one_listing = [first_record]"
  by code_simp

lemma two_listing_parsed: "parseNewStructure two_listing = [first_record, second_record]"
  by code_simp

lemma database_one_state: "database one_state = [first_record]"
  by (simp add: one_state_def handleFileUpload_def one_listing_parsed)

lemma database_two_state: "database two_state = [first_record, second_record]"
  by (simp add: two_state_def handleFileUpload_def two_listing_parsed)

lemma reachable_one_state: "reachable one_state"
  unfolding one_state_def by (intro r_upload r_init)

lemma reachable_two_state: "reachable two_state"
  unfolding two_state_def by (intro r_upload r_init)

lemma reachable_picked_state: "reachable picked_state"
  unfolding picked_state_def by (intro r_pick reachable_one_state)

lemma empty_database_state:
  assumes "state_inv s" "database s = []"
  shows "currentBatch s = []" "currentFile s = None"
  using assms by (auto simp: state_inv_def)

lemma single_record_batch:
  assumes "set xs \<subseteq> {f}" "distinct (map id_n xs)"
  shows "xs = [] \<or> xs = [f]"
proof (cases xs)
  case Nil
  then show ?thesis by simp
next
  case (Cons x ys)
  with assms have x: "x = f" by simp
  have "ys = []"
  proof (cases ys)
    case (Cons y zs)
    with assms \<open>xs = x # ys\<close> x show ?thesis by auto
  qed simp
  with Cons x show ?thesis by simp
qed

lemma pick_single:
  assumes "database s = [f]" "currentBatch s = [] \<or> currentBatch s = [f]"
  shows "currentFile (pickRandomFile r s) = Some f"
    and "currentBatch (pickRandomFile r s) = [f]"
    and "database (pickRandomFile r s) = [f]"
  using assms by (auto simp: pickRandomFile_def Let_def)




text \<open>A batch of the loop is never longer than the database.\<close>

lemma loop_inv_length:
  assumes "loop_inv db res used"
  shows "length res \<le> length db"
proof -
  have "card (set (map id_n res)) = length (map id_n res)"
    using assms by (intro distinct_card) (simp add: loop_inv_def)
  then have "length res = card (id_n ` set res)"
    by simp
  also have "\<dots> \<le> card (id_n ` set db)"
    using assms by (intro card_mono) (auto simp: loop_inv_def)
  also have "\<dots> \<le> card (set db)"
    by (intro card_image_le) simp
  also have "\<dots> \<le> length db"
    by (rule card_length)
  finally show ?thesis .
qed

text \<open>A target above the number of records is reached on no sequence of draws.\<close>

lemma batch_loop_overshoot:
  assumes "db \<noteq> []" "length db < limit"
  shows "batch_loop db limit rnd 0 [] {} = None"
proof (cases "batch_loop db limit rnd 0 [] {}")
  case None
  then show ?thesis .
next
  case (Some res)
  from batch_loop_partial [OF Some assms(1) loop_inv_empty]
  have v: "loop_inv db res (id_n ` set res)" and l: "length res = limit"
    by simp_all
  from v have "length res \<le> length db"
    by (rule loop_inv_length)
  with l assms(2) show ?thesis
    by simp
qed

text \<open>A target of at most the number of records is reached on every fair sequence of
  draws, when the ids of the records are distinct.\<close>

lemma batch_loop_fills:
  assumes "distinct (map id_n db)" "fair_draws (length db) rnd" "limit \<le> length db"
  shows "\<exists>res. batch_loop db limit rnd 0 [] {} = Some res \<and> length res = limit"
proof (cases "db = []")
  case True
  with assms(3) have "batch_loop db limit rnd 0 [] {} = Some []"
    by (subst batch_loop.simps) simp
  with True assms(3) show ?thesis
    by simp
next
  case False
  from batch_loop_terminates [OF assms loop_inv_empty]
  obtain res where r: "batch_loop db limit rnd 0 [] {} = Some res"
    by blast
  from batch_loop_partial [OF r False loop_inv_empty] have "length res = limit"
    by simp
  with r show ?thesis
    by blast
qed

text \<open>
  The hypothesis on the draws cannot be dropped in this model of the draws: with two
  records and the count 2, the sequence that gives the index 0 forever puts the first
  record into the batch and then rejects every draw.
\<close>

lemma generateBatch_stuck_draws:
  "length (database two_state) = 2 \<and> generateBatch 2 stuck_draws two_state = None"
proof -
  let ?db = "[first_record, second_record]"
  have i: "id_n first_record = 0"
    by (simp add: first_record_def)
  have step: "batch_loop ?db 2 stuck_draws 0 [] {}
      = batch_loop ?db 2 stuck_draws 1 [first_record] {0}"
    by (subst batch_loop.simps) (simp add: stuck_draws_def i Let_def)
  have "batch_loop ?db 2 stuck_draws 1 [first_record] {0} \<noteq> Some res" for res
    using batch_loop_stuck [of ?db 2 stuck_draws 1 "[first_record]" "{0}" res]
    by (auto simp: stuck_draws_def i)
  then have "batch_loop ?db 2 stuck_draws 1 [first_record] {0} = None"
    by (cases "batch_loop ?db 2 stuck_draws 1 [first_record] {0}") auto
  with step have "batch_loop ?db 2 stuck_draws 0 [] {} = None"
    by simp
  then show ?thesis
    by (simp add: generateBatch_def database_two_state numeral_2_eq_2)
qed


section \<open>The claims about the sampler\<close>




text \<open>
  C4. In every state of the component with a non-empty database, and for every count:
  \<^verbatim>\<open>generateBatch\<close> returns when the draws are fair, and whenever it returns, the new batch
  has \<open>min count_n (length (database s))\<close> records of the database, with distinct ids;
  when the count is at least the number of records, the ids of the batch are a
  permutation of the ids of the database.
\<close>

theorem generateBatch_distinct_sample:
  assumes "reachable s" "database s \<noteq> []"
  shows "(fair_draws (length (database s)) rnd \<longrightarrow> (\<exists>s'. generateBatch count_n rnd s = Some s'))
    \<and> (\<forall>s'. generateBatch count_n rnd s = Some s' \<longrightarrow>
          length (currentBatch s') = min count_n (length (database s))
          \<and> distinct (map id_n (currentBatch s'))
          \<and> set (currentBatch s') \<subseteq> set (database s)
          \<and> database s' = database s
          \<and> (length (database s) \<le> count_n \<longrightarrow>
               mset (map id_n (currentBatch s')) = mset (map id_n (database s))))"
proof (intro conjI allI impI)
  assume "fair_draws (length (database s)) rnd"
  with reachable_inv [OF assms(1)] show "\<exists>s'. generateBatch count_n rnd s = Some s'"
    by (rule generateBatch_terminates)
next
  fix s'
  assume g: "generateBatch count_n rnd s = Some s'"
  from generateBatch_result [OF g assms(2)] obtain batch where
    s': "s' = s\<lparr> currentBatch := batch,
                   currentFile := (case batch of [] \<Rightarrow> None | f # _ \<Rightarrow> Some f) \<rparr>"
    and inv: "loop_inv (database s) batch (id_n ` set batch)"
    and len: "length batch = min count_n (length (database s))"
    by blast
  have b: "currentBatch s' = batch" and d: "database s' = database s"
    using s' by simp_all
  show "length (currentBatch s') = min count_n (length (database s))"
    using b len by simp
  show "distinct (map id_n (currentBatch s'))"
    using b inv by (simp add: loop_inv_def)
  show "set (currentBatch s') \<subseteq> set (database s)"
    using b inv by (simp add: loop_inv_def)
  show "database s' = database s"
    by (rule d)
  assume "length (database s) \<le> count_n"
  with len have "length batch = length (database s)"
    by simp
  moreover have "distinct (map id_n (database s))"
    using reachable_inv [OF assms(1)] by (simp add: state_inv_def)
  ultimately show "mset (map id_n (currentBatch s')) = mset (map id_n (database s))"
    using inv b ids_permutation by blast
qed

theorem generateBatch_distinct_sample_witness:
  "reachable two_state \<and> database two_state \<noteq> []
   \<and> fair_draws (length (database two_state)) cycling_draws
   \<and> length (database two_state) \<le> 10
   \<and> (\<exists>s'. generateBatch 10 cycling_draws two_state = Some s'
         \<and> length (currentBatch s') = 2
         \<and> distinct (map id_n (currentBatch s'))
         \<and> mset (map id_n (currentBatch s')) = mset (map id_n (database two_state)))"
proof -
  have ne: "database two_state \<noteq> []" and len: "length (database two_state) = 2"
    by (simp_all add: database_two_state)
  have fair: "fair_draws (length (database two_state)) cycling_draws"
    by (simp add: len fair_cycling)
  from generateBatch_distinct_sample [OF reachable_two_state ne, of cycling_draws 10] fair len
  have "\<exists>s'. generateBatch 10 cycling_draws two_state = Some s'
         \<and> length (currentBatch s') = 2
         \<and> distinct (map id_n (currentBatch s'))
         \<and> mset (map id_n (currentBatch s')) = mset (map id_n (database two_state))"
    by auto
  with reachable_two_state ne fair len show ?thesis
    by simp
qed

text \<open>
  C6. In every state of the component and on every fair sequence of draws, the loop of
  \<^verbatim>\<open>generateBatch\<close> with a target of at most the number of records ends, with the batch
  filled up to the target. The target of \<^verbatim>\<open>generateBatch\<close> is the minimum of the count
  and the number of records, so \<^verbatim>\<open>generateBatch\<close> returns for every count, with a batch
  of that size. The minimum is what makes the loop end: a target above the number of
  records is reached on no sequence of draws.
\<close>

theorem generateBatch_terminates_on_fair_draws:
  assumes "reachable s" "fair_draws (length (database s)) rnd"
  shows "(limit \<le> length (database s) \<longrightarrow>
            (\<exists>res. batch_loop (database s) limit rnd 0 [] {} = Some res
               \<and> length res = limit))
    \<and> (\<exists>s'. generateBatch count_n rnd s = Some s'
          \<and> length (currentBatch s') = min count_n (length (database s)))
    \<and> (database s \<noteq> [] \<and> length (database s) < limit \<longrightarrow>
          batch_loop (database s) limit rnd' 0 [] {} = None)"
proof (intro conjI impI)
  have inv: "state_inv s"
    using assms(1) by (rule reachable_inv)
  then have dist: "distinct (map id_n (database s))"
    by (simp add: state_inv_def)
  show "\<exists>res. batch_loop (database s) limit rnd 0 [] {} = Some res \<and> length res = limit"
    if "limit \<le> length (database s)"
    using dist assms(2) that by (rule batch_loop_fills)
  show "\<exists>s'. generateBatch count_n rnd s = Some s'
      \<and> length (currentBatch s') = min count_n (length (database s))"
  proof (cases "database s = []")
    case True
    with inv have "currentBatch s = []"
      by (simp add: empty_database_state)
    with True show ?thesis
      by (simp add: generateBatch_def)
  next
    case False
    from generateBatch_terminates [OF inv assms(2)]
    obtain s' where g: "generateBatch count_n rnd s = Some s'"
      by blast
    from generateBatch_result [OF g False]
    have "length (currentBatch s') = min count_n (length (database s))"
      by auto
    with g show ?thesis
      by blast
  qed
  show "batch_loop (database s) limit rnd' 0 [] {} = None"
    if "database s \<noteq> [] \<and> length (database s) < limit"
    using that by (simp add: batch_loop_overshoot)
qed

theorem generateBatch_terminates_on_fair_draws_witness:
  "reachable two_state \<and> fair_draws (length (database two_state)) cycling_draws
   \<and> 2 \<le> length (database two_state)
   \<and> (\<exists>res. batch_loop (database two_state) 2 cycling_draws 0 [] {} = Some res
         \<and> length res = 2)
   \<and> (\<exists>s'. generateBatch 10 cycling_draws two_state = Some s'
         \<and> length (currentBatch s') = 2)
   \<and> database two_state \<noteq> [] \<and> length (database two_state) < 3
   \<and> batch_loop (database two_state) 3 cycling_draws 0 [] {} = None"
proof -
  have len: "length (database two_state) = 2" and ne: "database two_state \<noteq> []"
    by (simp_all add: database_two_state)
  have fair: "fair_draws (length (database two_state)) cycling_draws"
    by (simp add: len fair_cycling)
  note t = generateBatch_terminates_on_fair_draws [OF reachable_two_state fair]
  from t [of 2 10 cycling_draws] len
  have a: "\<exists>res. batch_loop (database two_state) 2 cycling_draws 0 [] {} = Some res
      \<and> length res = 2"
    by simp
  from t [of 2 10 cycling_draws] len
  have b: "\<exists>s'. generateBatch 10 cycling_draws two_state = Some s'
      \<and> length (currentBatch s') = 2"
    by simp
  from t [of 3 10 cycling_draws] len ne
  have c: "batch_loop (database two_state) 3 cycling_draws 0 [] {} = None"
    by simp
  from reachable_two_state fair len ne a b c show ?thesis
    by simp
qed

text \<open>
  C7. With an empty database \<^verbatim>\<open>pickRandomFile\<close> changes nothing, and in a state of the
  component there is then no current file. With a non-empty database the record drawn
  becomes the current file, and it is put in front of the batch exactly when no record
  of the batch has its id. In a state of the component whose database is the single
  record \<open>f\<close>, two picks in a row both select \<open>f\<close> and leave the batch \<open>[f]\<close>.
\<close>

theorem pickRandomFile_effect:
  "(database s = [] \<longrightarrow> pickRandomFile r s = s)
   \<and> (database s \<noteq> [] \<longrightarrow>
        currentFile (pickRandomFile r s) = Some (database s ! (r mod length (database s)))
        \<and> currentBatch (pickRandomFile r s) =
            (if id_n (database s ! (r mod length (database s))) \<in> id_n ` set (currentBatch s)
             then currentBatch s
             else database s ! (r mod length (database s)) # currentBatch s)
        \<and> database (pickRandomFile r s) = database s)
   \<and> (reachable s \<and> database s = [] \<longrightarrow> currentFile (pickRandomFile r s) = None)
   \<and> (reachable s \<and> database s = [f] \<longrightarrow>
        currentFile (pickRandomFile r1 s) = Some f
        \<and> currentFile (pickRandomFile r2 (pickRandomFile r1 s)) = Some f
        \<and> currentBatch (pickRandomFile r2 (pickRandomFile r1 s)) = [f])"
proof (intro conjI impI)
  show "pickRandomFile r s = s" if "database s = []"
    using that by (simp add: pickRandomFile_def)
  show "currentFile (pickRandomFile r s) = None" if "reachable s \<and> database s = []"
    using that empty_database_state(2) [OF reachable_inv] by (simp add: pickRandomFile_def)
next
  assume ne: "database s \<noteq> []"
  show "currentFile (pickRandomFile r s) = Some (database s ! (r mod length (database s)))"
    using ne by (simp add: pickRandomFile_def Let_def)
  show "currentBatch (pickRandomFile r s) =
      (if id_n (database s ! (r mod length (database s))) \<in> id_n ` set (currentBatch s)
       then currentBatch s
       else database s ! (r mod length (database s)) # currentBatch s)"
    using ne by (simp add: pickRandomFile_def Let_def find_id_None)
  show "database (pickRandomFile r s) = database s"
    using ne by (simp add: pickRandomFile_def Let_def)
next
  assume a: "reachable s \<and> database s = [f]"
  then have "state_inv s" by (simp add: reachable_inv)
  with a have "set (currentBatch s) \<subseteq> {f}" "distinct (map id_n (currentBatch s))"
    by (simp_all add: state_inv_def)
  then have b: "currentBatch s = [] \<or> currentBatch s = [f]"
    by (rule single_record_batch)
  from a have d: "database s = [f]" by simp
  note p1 = pick_single [OF d b, of r1]
  have b1: "currentBatch (pickRandomFile r1 s) = [] \<or> currentBatch (pickRandomFile r1 s) = [f]"
    using p1(2) by simp
  note p2 = pick_single [OF p1(3) b1, of r2]
  show "currentFile (pickRandomFile r1 s) = Some f" by (rule p1(1))
  show "currentFile (pickRandomFile r2 (pickRandomFile r1 s)) = Some f" by (rule p2(1))
  show "currentBatch (pickRandomFile r2 (pickRandomFile r1 s)) = [f]" by (rule p2(2))
qed

theorem pickRandomFile_effect_witness:
  "database initial_state = [] \<and> pickRandomFile 3 initial_state = initial_state
   \<and> reachable one_state \<and> database one_state = [first_record]
   \<and> currentFile (pickRandomFile 3 one_state) = Some first_record
   \<and> currentFile (pickRandomFile 7 (pickRandomFile 3 one_state)) = Some first_record
   \<and> currentBatch (pickRandomFile 7 (pickRandomFile 3 one_state)) = [first_record]"
proof -
  have e: "database initial_state = []"
    by (simp add: initial_state_def)
  from pickRandomFile_effect [of initial_state 3] e
  have "pickRandomFile 3 initial_state = initial_state"
    by simp
  moreover from pickRandomFile_effect [of one_state _ first_record 3 7]
    reachable_one_state database_one_state
  have "currentFile (pickRandomFile 3 one_state) = Some first_record
    \<and> currentFile (pickRandomFile 7 (pickRandomFile 3 one_state)) = Some first_record
    \<and> currentBatch (pickRandomFile 7 (pickRandomFile 3 one_state)) = [first_record]"
    by simp
  ultimately show ?thesis
    using e reachable_one_state database_one_state by simp
qed

text \<open>
  C10. In every state of the component (the initial state, and the state after a file
  is loaded, a pick, a batch draw, a click on a batch entry, clearing the batch or a
  reset), the current file, if there is one, has the id of a record of the batch; it
  is a record of the batch.
\<close>

theorem selection_in_batch:
  assumes "reachable s" "currentFile s = Some f"
  shows "(\<exists>b\<in>set (currentBatch s). id_n b = id_n f) \<and> f \<in> set (currentBatch s)"
  using reachable_inv [OF assms(1)] assms(2) by (auto simp: state_inv_def)

theorem selection_in_batch_witness:
  "reachable picked_state \<and> currentFile picked_state = Some first_record
   \<and> first_record \<in> set (currentBatch picked_state)"
proof -
  have c: "currentFile picked_state = Some first_record"
    by (simp add: picked_state_def pickRandomFile_def database_one_state Let_def)
  from selection_in_batch [OF reachable_picked_state c] reachable_picked_state c
  show ?thesis by simp
qed

end
